theory Spec2Isabelle
  imports Main "HOL-Library.Word" "HOL-Library.Sublist" "HOL-Library.Multiset"
begin

section \<open>Errors and panics\<close>

text \<open>
  The structured service error of package base:
  \<^verbatim>\<open>type b2err struct { msg string; method string; retry int; code int; msgCode string }\<close>.
  The fields \<open>retry\<close> and \<open>code\<close> are Go ints that are only compared with constants.
\<close>

record b2err =
  msg :: string
  "method" :: string
  retry :: int
  code :: int
  msgCode :: string

text \<open>
  Values of Go's \<open>error\<close> interface that the modelled code can meet:
  the two sentinels of package context, \<open>io.EOF\<close>, x509's unknown-authority error, a
  \<open>b2err\<close>,
  a plain message (\<open>errors.New\<close>, \<open>fmt.Errorf\<close> without wrapping) and an
  error with a message of its own that wraps another one (it has an \<open>Unwrap\<close> method,
  as \<open>tls.CertificateVerificationError\<close> has since Go 1.20).
\<close>

datatype error =
    Canceled
  | DeadlineExceeded
  | EOF
  | UnknownAuthorityError
  | B2err b2err
  | errorString string
  | Wrapped string error

text \<open>A run-time panic of the Go program: the call does not return.\<close>

datatype 'a outcome = Panics | Returns 'a

subsection \<open>Formatting\<close>

text \<open>The verb \<open>%d\<close> of package fmt: decimal digits, with a minus sign when negative.\<close>

definition digit_char :: "nat \<Rightarrow> char" where
  "digit_char d = ''0123456789'' ! d"

fun show_nat :: "nat \<Rightarrow> string" where
  "show_nat n = (if n < 10 then [digit_char n] else show_nat (n div 10) @ [digit_char (n mod 10)])"

declare show_nat.simps [simp del]

definition show_int :: "int \<Rightarrow> string" where
  "show_int i = (if i < 0 then CHR ''-'' # show_nat (nat (- i)) else show_nat (nat i))"

text \<open>
  \<^verbatim>\<open>func (e b2err) Error() string\<close> and the \<open>Error\<close> methods of the other errors.
\<close>

definition b2err_Error :: "b2err \<Rightarrow> string" where
  "b2err_Error e =
     (if method e = '''' then ''b2 error: '' @ msg e
      else method e @ '': '' @ show_int (code e) @ '': '' @ msg e)"

fun Error :: "error \<Rightarrow> string" where
  "Error Canceled = ''context canceled''"
| "Error DeadlineExceeded = ''context deadline exceeded''"
| "Error EOF = ''EOF''"
| "Error UnknownAuthorityError = ''x509: certificate signed by unknown authority''"
| "Error (B2err e) = b2err_Error e"
| "Error (errorString s) = s"
| "Error (Wrapped s e) = s"

section \<open>The error classifier\<close>

text \<open>\<^verbatim>\<open>type ErrAction int\<close> with its four constants, in the order of the \<open>iota\<close>.\<close>

datatype ErrAction = ReAuthenticate | AttemptNewUpload | Retry | Punt

text \<open>
  \<^verbatim>\<open>func Action(err error) ErrAction\<close>. The type assertion \<open>err.(b2err)\<close> succeeds
  only on the constructor \<open>B2err\<close>; \<open>strings.HasPrefix(s, p)\<close> is \<open>prefix p s\<close>.
\<close>

definition Action_b2err :: "b2err \<Rightarrow> ErrAction" where
  "Action_b2err e =
     (if retry e > 0 then Retry
      else if code e \<ge> 500 \<and> code e < 600 \<and>
              (method e = ''b2_upload_file'' \<or> method e = ''b2_upload_part'') then AttemptNewUpload
      else if code e = 401 then
        (if method e = ''b2_authorize_account'' then Punt
         else if method e = ''b2_upload_file'' \<or> method e = ''b2_upload_part'' then AttemptNewUpload
         else ReAuthenticate)
      else if code e = 400 then
        (if method e = ''b2_upload_file'' \<and> prefix ''more than one upload using auth token'' (msg e)
         then AttemptNewUpload
         else Punt)
      else if code e = 408 then AttemptNewUpload
      else if code e = 429 \<or> code e = 500 \<or> code e = 503 then Retry
      else Punt)"

fun Action :: "error \<Rightarrow> ErrAction" where
  "Action (B2err e) = Action_b2err e"
| "Action _ = Punt"

section \<open>The request executor: one round trip\<close>

text \<open>
  \<open>errors.As(err, &x509.UnknownAuthorityError{})\<close>: walks the chain of \<open>Unwrap\<close>
  and succeeds at the first error of that type.
\<close>

fun errors_As_UnknownAuthorityError :: "error \<Rightarrow> bool" where
  "errors_As_UnknownAuthorityError UnknownAuthorityError = True"
| "errors_As_UnknownAuthorityError (Wrapped s e) = errors_As_UnknownAuthorityError e"
| "errors_As_UnknownAuthorityError _ = False"

text \<open>
  \<^verbatim>\<open>func makeNetRequest(ctx, req, rt) (*http.Response, error)\<close>, as a function of what
  \<open>rt.RoundTrip(req)\<close> returned: the response and the error (\<open>None\<close> is \<open>nil\<close>).
  \<open>switch err\<close> compares the error value itself with the two context sentinels;
  the type switch looks at the error's own type, \<open>errors.As\<close> at the whole chain.
  The result is \<open>Inr resp\<close> for \<open>(resp, nil)\<close> and \<open>Inl e\<close> for \<open>(nil, e)\<close>.
\<close>

definition makeNetRequest :: "'resp \<Rightarrow> error option \<Rightarrow> error + 'resp" where
  "makeNetRequest resp err =
     (case err of
        None \<Rightarrow> Inr resp
      | Some e \<Rightarrow>
          if e = Canceled \<or> e = DeadlineExceeded then Inl e
          else if (case e of UnknownAuthorityError \<Rightarrow> True | _ \<Rightarrow> False) then Inl e
          else if errors_As_UnknownAuthorityError e then Inl e
          else Inl (B2err \<lparr>msg = Error e, method = '''', retry = 1, code = 0, msgCode = ''''\<rparr>))"

section \<open>The account session\<close>

text \<open>
  \<^verbatim>\<open>type b2Options struct\<close> and \<^verbatim>\<open>type B2 struct\<close>. The transport is an
  interface value (\<open>None\<close> is \<open>nil\<close>), named here by a number. The session holds a
  pointer to its options; \<open>Update\<close> copies the pointer, the model copies the value.
\<close>

record b2Options =
  transport :: "nat option"
  failSomeUploads :: bool
  expireTokens :: bool
  capExceeded :: bool
  apiBase :: string
  userAgent :: string

record B2 =
  accountID :: string
  authToken :: string
  apiURI :: string
  s3URI :: string
  downloadURI :: string
  minPartSize :: int
  opts :: b2Options
  bucket :: string
  pfx :: string

text \<open>\<^verbatim>\<open>func (b *B2) Update(n *B2)\<close>: six assignments, in the order of the source.\<close>

definition Update :: "B2 \<Rightarrow> B2 \<Rightarrow> B2" where
  "Update b n =
     b\<lparr>accountID := accountID n,
       authToken := authToken n,
       apiURI := apiURI n,
       downloadURI := downloadURI n,
       minPartSize := minPartSize n,
       opts := opts n\<rparr>"

section \<open>The retry harness\<close>

subsection \<open>Backoff and jitter\<close>

text \<open>
  A \<open>time.Duration\<close> is a count of nanoseconds in an int64. The properties below are
  about delays that are not negative; for these no operation of \<open>Backoff\<close> leaves the
  range of an int64, so durations are integers without wrap-around.
\<close>

definition Second :: int where
  "Second = 1000000000"


subsection \<open>The configuration and its options\<close>

text \<open>
  \<^verbatim>\<open>type Config struct\<close>. The counters are Go uints that are incremented by one per
  attempt and compared; they are natural numbers here. The hooks are Go closures; here they
  are functions of the attempt number and the error. \<open>after\<close> makes the timer channel,
  a value of type \<open>'c\<close>.
\<close>

record 'c Config =
  attempts :: nat
  delay :: int
  dynamicAttempts :: "nat \<Rightarrow> nat \<Rightarrow> error \<Rightarrow> nat"
  dynamicDelay :: "nat \<Rightarrow> int \<Rightarrow> error \<Rightarrow> int"
  onRetry :: "nat \<Rightarrow> error \<Rightarrow> error option"
  retryIf :: "nat \<Rightarrow> error \<Rightarrow> bool"
  after :: "int \<Rightarrow> 'c"

type_synonym 'c Option = "'c Config \<Rightarrow> 'c Config"

definition emptyOption :: "'c Option" where
  "emptyOption c = c"

definition Attempts :: "nat \<Rightarrow> 'c Option" where
  "Attempts a c = c\<lparr>attempts := a\<rparr>"

definition Delay :: "int \<Rightarrow> 'c Option" where
  "Delay d c = c\<lparr>delay := d\<rparr>"

text \<open>The next four options take a function that may be \<open>nil\<close> (\<open>None\<close>).\<close>

definition DynamicAttampts :: "(nat \<Rightarrow> nat \<Rightarrow> error \<Rightarrow> nat) option \<Rightarrow> 'c Option" where
  "DynamicAttampts f = (case f of None \<Rightarrow> emptyOption | Some g \<Rightarrow> (\<lambda>c. c\<lparr>dynamicAttempts := g\<rparr>))"

definition DynamicDelay :: "(nat \<Rightarrow> int \<Rightarrow> error \<Rightarrow> int) option \<Rightarrow> 'c Option" where
  "DynamicDelay f = (case f of None \<Rightarrow> emptyOption | Some g \<Rightarrow> (\<lambda>c. c\<lparr>dynamicDelay := g\<rparr>))"

definition OnRetry :: "(nat \<Rightarrow> error \<Rightarrow> error option) option \<Rightarrow> 'c Option" where
  "OnRetry f = (case f of None \<Rightarrow> emptyOption | Some g \<Rightarrow> (\<lambda>c. c\<lparr>onRetry := g\<rparr>))"

definition RetryIf :: "(nat \<Rightarrow> error \<Rightarrow> bool) option \<Rightarrow> 'c Option" where
  "RetryIf f = (case f of None \<Rightarrow> emptyOption | Some g \<Rightarrow> (\<lambda>c. c\<lparr>retryIf := g\<rparr>))"

definition WithAfter :: "(int \<Rightarrow> 'c) \<Rightarrow> 'c Option" where
  "WithAfter a c = c\<lparr>after := a\<rparr>"

text \<open>\<^verbatim>\<open>func newDefaultRetryConfig() *Config\<close>; \<open>time_After\<close> stands for \<open>time.After\<close>.\<close>

definition newDefaultRetryConfig :: "(int \<Rightarrow> 'c) \<Rightarrow> 'c Config" where
  "newDefaultRetryConfig time_After =
     \<lparr>attempts = 1,
      delay = 0,
      dynamicAttempts = (\<lambda>attempt attempts err. attempts),
      dynamicDelay = (\<lambda>attempt delay err. delay),
      onRetry = (\<lambda>attempt err. None),
      retryIf = (\<lambda>attempt err. True),
      after = time_After\<rparr>"

subsection \<open>The loop\<close>

text \<open>
  \<^verbatim>\<open>func Do(ctx context.Context, retryableFunc RetryableFunc, opts ...Option) error\<close>.

  The outside world is given by three arguments:
  \<^item> \<open>ctx_Err\<close>: what \<open>ctx.Err()\<close> returns when \<open>Do\<close> is entered;
  \<^item> \<open>retryableFunc n\<close>: what the \<open>n\<close>-th call of the operation returns;
  \<^item> \<open>select n ch\<close>: which case of the \<open>select\<close> statement of attempt \<open>n\<close> runs,
    \<open>None\<close> when the timer channel \<open>ch\<close> delivers, \<open>Some e\<close> when \<open>ctx.Done()\<close>
    delivers and \<open>ctx.Err()\<close> is then \<open>e\<close>. When both channels are ready the choice
    is Go's; \<open>select\<close> carries that choice too.

  The result is \<open>None\<close> when the loop runs forever; otherwise the returned error
  (\<open>None\<close> is \<open>nil\<close>) and the number of calls of the operation that were made.
\<close>

partial_function (option) Do_loop ::
  "(nat \<Rightarrow> 'c \<Rightarrow> error option) \<Rightarrow> (nat \<Rightarrow> error option) \<Rightarrow> 'c Config \<Rightarrow> nat \<Rightarrow> (error option \<times> nat) option"
where
  "Do_loop select retryableFunc config n0 =
     (let n = n0 + 1 in
      case retryableFunc n of
        None \<Rightarrow> Some (None, n)
      | Some err \<Rightarrow>
          let config = config\<lparr>attempts := dynamicAttempts config n (attempts config) err\<rparr> in
          if attempts config \<noteq> 0 \<and> n \<ge> attempts config then Some (Some err, n)
          else if \<not> retryIf config n err then Some (Some err, n)
          else
            (case onRetry config n err of
               Some err' \<Rightarrow> Some (Some err', n)
             | None \<Rightarrow>
                 let config = config\<lparr>delay := dynamicDelay config n (delay config) err\<rparr> in
                 (case select n (after config (delay config)) of
                    Some ctx_err \<Rightarrow> Some (Some ctx_err, n)
                  | None \<Rightarrow> Do_loop select retryableFunc config n)))"

definition Do ::
  "error option \<Rightarrow> (nat \<Rightarrow> 'c \<Rightarrow> error option) \<Rightarrow> (int \<Rightarrow> 'c) \<Rightarrow> (nat \<Rightarrow> error option) \<Rightarrow>
   'c Option list \<Rightarrow> (error option \<times> nat) option"
where
  "Do ctx_Err select time_After retryableFunc options =
     (case ctx_Err of
        Some err \<Rightarrow> Some (Some err, 0)
      | None \<Rightarrow>
          Do_loop select retryableFunc
            (fold (\<lambda>opt config. opt config) options (newDefaultRetryConfig time_After)) 0)"

section \<open>The deferred-hash filter\<close>

type_synonym byte = "8 word"

text \<open>
  \<^verbatim>\<open>type keepFinalBytes struct { r io.Reader; remain int; sha [40]byte }\<close>.
  The wrapped reader \<open>r\<close> is outside the model: each call of \<open>Read\<close> is given what
  \<open>k.r.Read(p)\<close> did. The array \<open>sha\<close> is a list, of length 40 in every state that
  the program builds. \<open>remain\<close> and the counts are Go ints; the values that the
  properties below are about lie between 0 and the length of a buffer, far from the ends
  of the 64-bit range, so they are integers without wrap-around.
\<close>

record keepFinalBytes =
  remain :: int
  sha :: "byte list"

text \<open>The value of \<^verbatim>\<open>&keepFinalBytes{r: r, remain: size}\<close>: the array is zeroed.\<close>

definition new_keepFinalBytes :: "int \<Rightarrow> keepFinalBytes" where
  "new_keepFinalBytes sz = \<lparr>remain = sz, sha = replicate 40 0\<rparr>"

text \<open>
  A slice expression \<open>a[lo:hi]\<close> over an array or buffer of capacity \<open>c\<close> panics
  unless \<open>0 \<le> lo \<le> hi \<le> c\<close>; within bounds it denotes the elements from
  \<open>lo\<close> up to \<open>hi\<close>, excluded.
\<close>

definition in_bounds :: "int \<Rightarrow> int \<Rightarrow> nat \<Rightarrow> bool" where
  "in_bounds lo hi c = (0 \<le> lo \<and> lo \<le> hi \<and> hi \<le> int c)"

definition slice :: "'a list \<Rightarrow> int \<Rightarrow> int \<Rightarrow> 'a list" where
  "slice xs lo hi = take (nat hi - nat lo) (drop (nat lo) xs)"

text \<open>
  \<open>copy(dst[lo:hi], src)\<close>, as the new contents of \<open>dst\<close>: the built-in copies as
  many elements as the shorter of the two slices has.
\<close>

definition copy_slice :: "'a list \<Rightarrow> int \<Rightarrow> int \<Rightarrow> 'a list \<Rightarrow> 'a list" where
  "copy_slice dst lo hi src =
     (let m = min (nat hi - nat lo) (length src)
      in take (nat lo) dst @ take m src @ drop (nat lo + m) dst)"

text \<open>
  \<^verbatim>\<open>func (k *keepFinalBytes) Read(p []byte) (int, error)\<close>. The arguments \<open>p\<close>,
  \<open>n\<close> and \<open>err\<close> are the buffer after \<open>k.r.Read(p)\<close> has filled it, and the two
  values that call returned; the capacity of \<open>p\<close> is its length. The result is the
  new state of the filter and the two values that \<open>Read\<close> returns.
\<close>

definition keepFinalBytes_Read ::
  "keepFinalBytes \<Rightarrow> byte list \<Rightarrow> int \<Rightarrow> error option \<Rightarrow>
   (keepFinalBytes \<times> int \<times> error option) outcome"
where
  "keepFinalBytes_Read k p n err =
     (if remain k - n > 40 then Returns (k\<lparr>remain := remain k - n\<rparr>, n, err)
      else
        let pi = - 40 + remain k;
            pi = (if pi < 0 then 0 else pi);
            pe = n;
            ki = 40 - remain k;
            ki = (if ki < 0 then 0 else ki);
            ke = n - remain k + 40
        in if \<not> in_bounds ki ke 40 \<or> \<not> in_bounds pi pe (length p) then Panics
           else Returns (k\<lparr>sha := copy_slice (sha k) ki ke (slice p pi pe),
                            remain := remain k - n\<rparr>, n, err))"

text \<open>
  A sequence of calls of \<open>Read\<close> on one filter, each given by what the wrapped reader
  did: the buffer, the count and the error. The result is the last state of the filter and
  what each call returned.
\<close>

type_synonym read = "byte list \<times> int \<times> error option"

fun Reads :: "keepFinalBytes \<Rightarrow> read list \<Rightarrow> (keepFinalBytes \<times> (int \<times> error option) list) outcome"
where
  "Reads k [] = Returns (k, [])"
| "Reads k ((p, n, err) # rs) =
     (case keepFinalBytes_Read k p n err of
        Panics \<Rightarrow> Panics
      | Returns (k', out) \<Rightarrow>
          (case Reads k' rs of
             Panics \<Rightarrow> Panics
           | Returns (k'', outs) \<Rightarrow> Returns (k'', out # outs)))"

text \<open>
  The contract of \<open>io.Reader\<close> for the wrapped reader: \<open>0 \<le> n \<le> len(p)\<close>. The
  bytes that a sequence of reads delivers are the first \<open>n\<close> bytes of each buffer.
\<close>

definition well_formed_read :: "read \<Rightarrow> bool" where
  "well_formed_read r = (case r of (p, n, err) \<Rightarrow> 0 \<le> n \<and> n \<le> int (length p))"

definition read_n :: "read \<Rightarrow> int" where
  "read_n r = fst (snd r)"

definition delivered :: "read list \<Rightarrow> byte list" where
  "delivered rs = concat (map (\<lambda>(p, n, err). take (nat n) p) rs)"

text \<open>
  For the proofs: what the 40-byte window over the end of a stream of \<open>S\<close> bytes holds
  once the prefix \<open>t\<close> of the stream has been seen.
\<close>

definition window :: "int \<Rightarrow> byte list \<Rightarrow> byte list" where
  "window S t =
     map (\<lambda>j. if 0 \<le> S - 40 + int j \<and> S - 40 + int j < int (length t)
               then t ! nat (S - 40 + int j) else 0) [0..<40]"

section \<open>The large-file upload protocol\<close>

text \<open>
  \<^verbatim>\<open>type LargeFile struct { ID string; b2 *B2; mu sync.Mutex; size int64; hashes map[int]string }\<close>.
  The mutex is not a field of the model: \<open>UploadPart\<close> and \<open>FinishLargeFile\<close> change
  and read \<open>size\<close> and \<open>hashes\<close> only while they hold it, so concurrent calls act on
  the session one after the other, in the order in which they take the lock.
  \<open>size\<close> is an int64 and wraps around. The fields carry the prefix \<open>lf_\<close>, since
  \<open>File\<close> has fields of the same names.
\<close>

record LargeFile =
  lf_ID :: string
  lf_b2 :: B2
  lf_size :: "64 word"
  lf_hashes :: "int \<rightharpoonup> string"

text \<open>
  \<^verbatim>\<open>type FileChunk struct { url string; token string; file *LargeFile }\<close>; the session
  that \<open>file\<close> points to is passed to \<open>UploadPart\<close> and returned by it.
\<close>

record FileChunk =
  url :: string
  token :: string

text \<open>
  \<^verbatim>\<open>type File struct\<close>. \<open>Timestamp\<close> is a \<open>time.Time\<close>, here the seconds and
  nanoseconds given to \<open>time.Unix\<close>; \<open>Info\<close> is a pointer (\<open>None\<close> is \<open>nil\<close>).
\<close>

record File =
  Name :: string
  Size :: "64 word"
  Status :: string
  Timestamp :: "int \<times> int"
  Info :: "nat option"
  ID :: string
  b2 :: B2

text \<open>Go's integer division truncates towards zero; the remainder has the dividend's sign.\<close>

definition go_div :: "int \<Rightarrow> int \<Rightarrow> int" where
  "go_div a b = sgn a * sgn b * (\<bar>a\<bar> div \<bar>b\<bar>)"

definition go_mod :: "int \<Rightarrow> int \<Rightarrow> int" where
  "go_mod a b = a - b * go_div a b"

text \<open>\<^verbatim>\<open>func millitime(t int64) time.Time\<close>\<close>

definition millitime :: "int \<Rightarrow> int \<times> int" where
  "millitime t = (go_div t 1000, go_mod t 1000 * 1000000)"

definition V3api :: string where
  "V3api = ''/b2api/v3/''"

text \<open>
  \<^verbatim>\<open>func (b *Bucket) StartLargeFile(...)\<close>, as a function of what \<open>makeRequest\<close>
  returned for \<open>b2_start_large_file\<close>: an error or the file ID of the response.
\<close>

definition StartLargeFile :: "error + string \<Rightarrow> B2 \<Rightarrow> error + LargeFile" where
  "StartLargeFile reply b =
     (case reply of
        Inl err \<Rightarrow> Inl err
      | Inr fileId \<Rightarrow> Inr \<lparr>lf_ID = fileId, lf_b2 = b, lf_size = 0, lf_hashes = Map.empty\<rparr>)"

subsection \<open>Uploading a part\<close>

text \<open>
  What the outside world does during the \<open>makeRequest\<close> of one \<open>UploadPart\<close>: the
  reads that the HTTP transport makes on the body, and the error that \<open>makeRequest\<close>
  returns, as a function of the URL and the headers (\<open>None\<close> is \<open>nil\<close>).
\<close>

record upload_env =
  body_reads :: "read list"
  reply :: "string \<Rightarrow> (string \<times> string) list \<Rightarrow> error option"

text \<open>
  The request of \<open>UploadPart\<close>. The body is the caller's reader (\<open>None\<close>) or the filter
  that wraps it; only the filter has a state in the model. A panic in a \<open>Read\<close> ends the
  program.
\<close>

definition makeRequest_upload ::
  "upload_env \<Rightarrow> string \<Rightarrow> (string \<times> string) list \<Rightarrow> keepFinalBytes option \<Rightarrow>
   (error option \<times> keepFinalBytes option) outcome"
where
  "makeRequest_upload env uri headers body =
     (case body of
        None \<Rightarrow> Returns (reply env uri headers, None)
      | Some k \<Rightarrow>
          (case Reads k (body_reads env) of
             Panics \<Rightarrow> Panics
           | Returns (k', outs) \<Rightarrow> Returns (reply env uri headers, Some k')))"

text \<open>\<open>string(b[:])\<close>: the bytes as a string.\<close>

definition string_of_bytes :: "byte list \<Rightarrow> string" where
  "string_of_bytes bs = map (\<lambda>b. char_of (unat b)) bs"

text \<open>
  \<^verbatim>\<open>func (fc *FileChunk) UploadPart(ctx, r, sha1, size, index) (int, error)\<close>,
  in four parts: the headers, the body (the filter when the hash is the sentinel), the
  statements between \<open>Lock\<close> and \<open>Unlock\<close>, and the function itself.
  The result is the pair that the call returns and the session \<open>fc.file\<close> after the
  call. The type assertion \<open>r.(*keepFinalBytes)\<close> panics when \<open>r\<close> is not the filter.
\<close>

definition upload_headers :: "FileChunk \<Rightarrow> string \<Rightarrow> int \<Rightarrow> int \<Rightarrow> (string \<times> string) list" where
  "upload_headers fc sha1 sz index =
     [(''Authorization'', token fc),
      (''X-Bz-Part-Number'', show_int index),
      (''Content-Length'', show_int sz),
      (''X-Bz-Content-Sha1'', sha1)]"

definition upload_body :: "string \<Rightarrow> int \<Rightarrow> keepFinalBytes option" where
  "upload_body sha1 sz =
     (if sha1 = ''hex_digits_at_end'' then Some (new_keepFinalBytes sz) else None)"

definition store_part :: "LargeFile \<Rightarrow> int \<Rightarrow> string \<Rightarrow> int \<Rightarrow> LargeFile" where
  "store_part l index sha1 sz =
     l\<lparr>lf_hashes := (lf_hashes l)(index \<mapsto> sha1),
       lf_size := lf_size l + word_of_int sz\<rparr>"

definition UploadPart ::
  "upload_env \<Rightarrow> FileChunk \<Rightarrow> LargeFile \<Rightarrow> string \<Rightarrow> int \<Rightarrow> int \<Rightarrow>
   ((int \<times> error option) \<times> LargeFile) outcome"
where
  "UploadPart env fc l sha1 sz index =
     (case makeRequest_upload env (url fc) (upload_headers fc sha1 sz index) (upload_body sha1 sz) of
        Panics \<Rightarrow> Panics
      | Returns (Some err, r) \<Rightarrow> Returns ((0, Some err), l)
      | Returns (None, r) \<Rightarrow>
          if sha1 = ''hex_digits_at_end'' then
            (case r of
               None \<Rightarrow> Panics
             | Some k \<Rightarrow> Returns ((sz, None), store_part l index (string_of_bytes (sha k)) sz))
          else Returns ((sz, None), store_part l index sha1 sz))"

text \<open>
  Several calls of \<open>UploadPart\<close> on one session, in the order in which they take the
  session's lock. Each call has its own chunk, arguments and outside world.
\<close>

record upload_call =
  call_env :: upload_env
  call_fc :: FileChunk
  call_sha1 :: string
  call_size :: int
  call_index :: int

fun UploadParts ::
  "LargeFile \<Rightarrow> upload_call list \<Rightarrow> ((int \<times> error option) list \<times> LargeFile) outcome"
where
  "UploadParts l [] = Returns ([], l)"
| "UploadParts l (c # cs) =
     (case UploadPart (call_env c) (call_fc c) l (call_sha1 c) (call_size c) (call_index c) of
        Panics \<Rightarrow> Panics
      | Returns (out, l') \<Rightarrow>
          (case UploadParts l' cs of
             Panics \<Rightarrow> Panics
           | Returns (outs, l'') \<Rightarrow> Returns (out # outs, l'')))"

subsection \<open>Finishing\<close>

record FinishLargeFileRequest =
  req_ID :: string
  req_Hashes :: "string list"

record FinishLargeFileResponse =
  resp_Name :: string
  resp_FileID :: string
  resp_Timestamp :: int
  resp_Action :: string

text \<open>
  The loop \<^verbatim>\<open>for k, v := range l.hashes\<close> of \<open>FinishLargeFile\<close>. Go visits the keys
  of a map in an order of its choice: \<open>ks\<close> is that order, a list of the keys of the map
  without repetition (a number that is not a key is passed over). The result is the error
  of the early return, or the array \<open>b2req.Hashes\<close> after the loop. The assignment
  \<open>b2req.Hashes[k-1] = v\<close> panics when \<open>k - 1\<close> is negative.
\<close>

fun fill_Hashes :: "int list \<Rightarrow> (int \<rightharpoonup> string) \<Rightarrow> string list \<Rightarrow> (error + string list) outcome"
where
  "fill_Hashes [] m hs = Returns (Inr hs)"
| "fill_Hashes (k # ks) m hs =
     (case m k of
        None \<Rightarrow> fill_Hashes ks m hs
      | Some v \<Rightarrow>
          if int (length hs) < k then
            Returns (Inl (errorString (''b2_finish_large_file: invalid index '' @ show_int k)))
          else if k - 1 < 0 then Panics
          else fill_Hashes ks m (hs[nat (k - 1) := v]))"

text \<open>
  \<^verbatim>\<open>func (l *LargeFile) FinishLargeFile(ctx) (*File, error)\<close>. \<open>rpc\<close> is what
  \<open>makeRequest\<close> does for \<open>b2_finish_large_file\<close>, as a function of the URL, the
  headers and the request; \<open>len(l.hashes)\<close> is the length of \<open>ks\<close>. The result is
  what the call returns, and the list of the requests that it has sent.
\<close>

definition FinishLargeFile ::
  "(string \<Rightarrow> (string \<times> string) list \<Rightarrow> FinishLargeFileRequest \<Rightarrow> error + FinishLargeFileResponse) \<Rightarrow>
   int list \<Rightarrow> LargeFile \<Rightarrow> ((error + File) \<times> FinishLargeFileRequest list) outcome"
where
  "FinishLargeFile rpc ks l =
     (case fill_Hashes ks (lf_hashes l) (replicate (length ks) '''') of
        Panics \<Rightarrow> Panics
      | Returns (Inl err) \<Rightarrow> Returns (Inl err, [])
      | Returns (Inr hs) \<Rightarrow>
          let b2req = \<lparr>req_ID = lf_ID l, req_Hashes = hs\<rparr>;
              headers = [(''Authorization'', authToken (lf_b2 l))]
          in case rpc (apiURI (lf_b2 l) @ V3api @ ''b2_finish_large_file'') headers b2req of
               Inl err \<Rightarrow> Returns (Inl err, [b2req])
             | Inr b2resp \<Rightarrow>
                 Returns (Inr \<lparr>Name = resp_Name b2resp,
                               Size = lf_size l,
                               Status = resp_Action b2resp,
                               Timestamp = millitime (resp_Timestamp b2resp),
                               Info = None,
                               ID = resp_FileID b2resp,
                               b2 = lf_b2 l\<rparr>, [b2req]))"

section \<open>Values for the examples\<close>

text \<open>A session, a successful call of \<open>UploadPart\<close> that reads nothing from its body, and a
  service that accepts every \<open>b2_finish_large_file\<close> request.\<close>

definition example_b2 :: B2 where
  "example_b2 =
     \<lparr>accountID = ''acct'', authToken = ''token'', apiURI = ''https://api.example'',
      s3URI = ''https://s3.example'', downloadURI = ''https://dl.example'', minPartSize = 5000000,
      opts = \<lparr>transport = None, failSomeUploads = False, expireTokens = False,
              capExceeded = False, apiBase = '''', userAgent = ''''\<rparr>,
      bucket = '''', pfx = ''''\<rparr>"

definition example_call :: "int \<Rightarrow> string \<Rightarrow> int \<Rightarrow> upload_call" where
  "example_call i h n =
     \<lparr>call_env = \<lparr>body_reads = [], reply = (\<lambda>u hs. None)\<rparr>,
      call_fc = \<lparr>url = ''https://pod.example/part'', token = ''t''\<rparr>,
      call_sha1 = h, call_size = n, call_index = i\<rparr>"

definition example_rpc ::
  "string \<Rightarrow> (string \<times> string) list \<Rightarrow> FinishLargeFileRequest \<Rightarrow> error + FinishLargeFileResponse"
where
  "example_rpc u hs r =
     Inr \<lparr>resp_Name = ''big'', resp_FileID = req_ID r, resp_Timestamp = 1700000000123,
          resp_Action = ''upload''\<rparr>"

section \<open>Properties of the classifier\<close>

text \<open>
  C2 (as amended). For every service error whose method is \<open>b2_upload_part\<close> or
  \<open>b2_upload_file\<close> and whose status code is in [500, 600), \<open>Action\<close> returns
  \<open>AttemptNewUpload\<close> when the retry-after value is not positive, and \<open>Retry\<close>
  when it is positive: the retry-after test comes first in the source.
\<close>

theorem Action_upload_5xx:
  assumes "method e = ''b2_upload_part'' \<or> method e = ''b2_upload_file''"
    and "500 \<le> code e" and "code e < 600"
  shows "Action (B2err e) = (if retry e > 0 then Retry else AttemptNewUpload)"
  using assms by (auto simp: Action_b2err_def)

theorem Action_upload_5xx_witness:
  "Action (B2err \<lparr>msg = ''internal error'', method = ''b2_upload_part'', retry = 0, code = 500,
                  msgCode = ''internal_error''\<rparr>) = AttemptNewUpload"
  using Action_upload_5xx [of "\<lparr>msg = ''internal error'', method = ''b2_upload_part'', retry = 0,
                                code = 500, msgCode = ''internal_error''\<rparr>"]
  by simp

text \<open>
  C2 (as stated) fails: a 503 answer to \<open>b2_upload_part\<close> that carries
  \<open>Retry-After: 5\<close> is classified \<open>Retry\<close>.
\<close>

theorem Action_upload_5xx_counterexample:
  "Action (B2err \<lparr>msg = ''service unavailable'', method = ''b2_upload_part'', retry = 5,
                  code = 503, msgCode = ''service_unavailable''\<rparr>) = Retry"
  by (simp add: Action_b2err_def)

text \<open>
  The three classes of errors that \<open>makeNetRequest\<close> tells apart. The two context
  sentinels themselves are returned as they are and classify as \<open>Punt\<close>; any other error
  that is, or wraps, an unknown-authority error is returned as it is and classifies as
  \<open>Punt\<close>; every remaining error comes back as a \<open>b2err\<close> with \<open>retry = 1\<close>, which
  classifies as \<open>Retry\<close>.
\<close>

lemma makeNetRequest_classes:
  "(e = Canceled \<or> e = DeadlineExceeded \<longrightarrow>
      makeNetRequest resp (Some e) = Inl e \<and> Action e = Punt) \<and>
   (e \<noteq> Canceled \<and> e \<noteq> DeadlineExceeded \<and> errors_As_UnknownAuthorityError e \<longrightarrow>
      makeNetRequest resp (Some e) = Inl e \<and> Action e = Punt) \<and>
   (e \<noteq> Canceled \<and> e \<noteq> DeadlineExceeded \<and> \<not> errors_As_UnknownAuthorityError e \<longrightarrow>
      (\<exists>b. makeNetRequest resp (Some e) = Inl (B2err b) \<and> retry b = 1 \<and> msg b = Error e \<and>
           Action (B2err b) = Retry))"
  by (cases e) (auto simp: makeNetRequest_def Action_b2err_def)

text \<open>
  C6. The claim holds for the unknown-authority errors, wrapped or not, for the context
  sentinels themselves and for the errors that have nothing to do with the context. It
  fails for a context error that arrives wrapped in another error, as
  \<open>fmt.Errorf("round trip: %w", context.Canceled)\<close> makes it: the \<open>switch\<close> compares the
  error value with the sentinels and does not look into the chain, although the code next
  to it does so for the unknown-authority error with \<open>errors.As\<close>. The wrapped
  cancellation comes back as a \<open>b2err\<close> with \<open>retry = 1\<close> and is classified \<open>Retry\<close>;
  the wrapped unknown-authority error comes back as it is and is classified \<open>Punt\<close>.
\<close>

theorem makeNetRequest_wrapped_cancellation:
  "makeNetRequest (0::nat) (Some (Wrapped ''round trip: context canceled'' Canceled))
     = Inl (B2err \<lparr>msg = ''round trip: context canceled'', method = '''', retry = 1, code = 0,
                   msgCode = ''''\<rparr>) \<and>
   Action (B2err \<lparr>msg = ''round trip: context canceled'', method = '''', retry = 1, code = 0,
                  msgCode = ''''\<rparr>) = Retry \<and>
   makeNetRequest (0::nat) (Some (Wrapped ''round trip: context deadline exceeded'' DeadlineExceeded))
     = Inl (B2err \<lparr>msg = ''round trip: context deadline exceeded'', method = '''', retry = 1,
                   code = 0, msgCode = ''''\<rparr>) \<and>
   makeNetRequest (0::nat) (Some (Wrapped ''tls: failed to verify certificate'' UnknownAuthorityError))
     = Inl (Wrapped ''tls: failed to verify certificate'' UnknownAuthorityError) \<and>
   Action (Wrapped ''tls: failed to verify certificate'' UnknownAuthorityError) = Punt"
  by (simp add: makeNetRequest_def Action_b2err_def)

section \<open>Properties of the account session\<close>

text \<open>
  C8. \<open>Update\<close> is documented to replace the session by the new one, but it has no
  assignment for the S3-compatible URI: after the call, that field is still the old one.
  Evaluated at a session whose new S3 URI differs from the old one.
\<close>

theorem Update_leaves_s3URI:
  "s3URI (Update
      \<lparr>accountID = ''acct'', authToken = ''token-old'', apiURI = ''https://api-old'',
       s3URI = ''https://s3-old'', downloadURI = ''https://dl-old'', minPartSize = 5000000,
       opts = \<lparr>transport = None, failSomeUploads = False, expireTokens = False,
               capExceeded = False, apiBase = '''', userAgent = ''''\<rparr>,
       bucket = '''', pfx = ''''\<rparr>
      \<lparr>accountID = ''acct'', authToken = ''token-new'', apiURI = ''https://api-new'',
       s3URI = ''https://s3-new'', downloadURI = ''https://dl-new'', minPartSize = 5000000,
       opts = \<lparr>transport = None, failSomeUploads = False, expireTokens = False,
               capExceeded = False, apiBase = '''', userAgent = ''''\<rparr>,
       bucket = '''', pfx = ''''\<rparr>) = ''https://s3-old''"
  by (simp add: Update_def)

section \<open>Properties of the retry harness\<close>




text \<open>
  C7. When the context's error is set as \<open>Do\<close> is entered, \<open>Do\<close> returns that error
  and the operation has been called zero times. In an attempt that fails and goes on to
  wait (the attempt limit is not reached, \<open>retryIf\<close> accepts, \<open>onRetry\<close> returns
  \<open>nil\<close>), when the \<open>select\<close> takes the context's channel the loop returns the
  context's error \<open>ce\<close>, not the operation's error \<open>err\<close>.
\<close>

theorem Do_context_cancellation:
  "(ctx_Err = Some ce \<longrightarrow> Do ctx_Err sel time_After f os = Some (Some ce, 0)) \<and>
   (f (Suc n) = Some err \<and>
    (dynamicAttempts cfg (Suc n) (attempts cfg) err = 0 \<or>
     Suc n < dynamicAttempts cfg (Suc n) (attempts cfg) err) \<and>
    retryIf cfg (Suc n) err \<and>
    onRetry cfg (Suc n) err = None \<and>
    sel (Suc n) (after cfg (dynamicDelay cfg (Suc n) (delay cfg) err)) = Some ce \<longrightarrow>
    Do_loop sel f cfg n = Some (Some ce, Suc n))"
proof (intro conjI impI)
  assume "ctx_Err = Some ce"
  then show "Do ctx_Err sel time_After f os = Some (Some ce, 0)"
    by (simp add: Do_def)
next
  assume a: "f (Suc n) = Some err \<and>
    (dynamicAttempts cfg (Suc n) (attempts cfg) err = 0 \<or>
     Suc n < dynamicAttempts cfg (Suc n) (attempts cfg) err) \<and>
    retryIf cfg (Suc n) err \<and>
    onRetry cfg (Suc n) err = None \<and>
    sel (Suc n) (after cfg (dynamicDelay cfg (Suc n) (delay cfg) err)) = Some ce"
  show "Do_loop sel f cfg n = Some (Some ce, Suc n)"
    by (subst Do_loop.simps) (use a in \<open>auto simp: Let_def\<close>)
qed

text \<open>
  A run of \<open>Do\<close> with five attempts and a delay of one second: the operation fails twice,
  the first wait ends by the timer, the deadline passes during the second wait.
\<close>

theorem Do_context_cancellation_witness:
  "Do (Some Canceled) (\<lambda>n (ch::int). None) (\<lambda>d. d) (\<lambda>n. None) [] = Some (Some Canceled, 0) \<and>
   Do None (\<lambda>n (ch::int). if n = 2 then Some DeadlineExceeded else None) (\<lambda>d. d)
      (\<lambda>n. Some (errorString ''unavailable'')) [Attempts 5, Delay Second]
     = Some (Some DeadlineExceeded, 2)"
proof -
  let ?sel = "\<lambda>n (ch::int). if n = 2 then Some DeadlineExceeded else None"
  let ?f = "\<lambda>n::nat. Some (errorString ''unavailable'')"
  let ?cfg = "Delay Second (Attempts 5 (newDefaultRetryConfig (\<lambda>d. d)))"
  have entry: "Do (Some Canceled) (\<lambda>n (ch::int). None) (\<lambda>d. d) (\<lambda>n. None) []
      = Some (Some Canceled, 0)"
    using Do_context_cancellation [where ctx_Err = "Some Canceled" and ce = Canceled
        and sel = "\<lambda>n (ch::int). None" and time_After = "\<lambda>d. d" and f = "\<lambda>n. None" and os = "[]"]
    by simp
  have second: "Do_loop ?sel ?f ?cfg 1 = Some (Some DeadlineExceeded, 2)"
    using Do_context_cancellation [where f = ?f and n = 1 and err = "errorString ''unavailable''"
        and cfg = ?cfg and sel = ?sel and ce = DeadlineExceeded]
    by (simp add: newDefaultRetryConfig_def Attempts_def Delay_def)
  have first: "Do_loop ?sel ?f ?cfg 0 = Do_loop ?sel ?f ?cfg 1"
    by (subst Do_loop.simps) (simp add: newDefaultRetryConfig_def Attempts_def Delay_def Let_def)
  have "Do None ?sel (\<lambda>d. d) ?f [Attempts 5, Delay Second] = Do_loop ?sel ?f ?cfg 0"
    by (simp add: Do_def)
  with first second entry show ?thesis
    by simp
qed

section \<open>Properties of the deferred-hash filter\<close>

lemma length_window [simp]: "length (window S t) = 40"
  by (simp add: window_def)

lemma nth_window:
  "j < 40 \<Longrightarrow> window S t ! j =
     (if 0 \<le> S - 40 + int j \<and> S - 40 + int j < int (length t) then t ! nat (S - 40 + int j) else 0)"
  by (simp add: window_def)

lemma window_far:
  assumes "int (length t) + n < S - 40" "0 \<le> n" "int (length c) = n"
  shows "window S (t @ c) = window S t"
  using assms by (intro nth_equalityI) (auto simp: nth_window)

lemma Read_skip:
  assumes "remain k - n > 40"
  shows "keepFinalBytes_Read k p n err = Returns (k\<lparr>remain := remain k - n\<rparr>, n, err)"
  using assms by (simp add: keepFinalBytes_Read_def)

lemma Read_copy_high:
  assumes "\<not> remain k - n > 40" "40 \<le> remain k" "n \<le> remain k" "0 \<le> n" "n \<le> int (length p)"
  shows "keepFinalBytes_Read k p n err =
     Returns (k\<lparr>sha := take (nat (n - remain k + 40)) (drop (nat (remain k - 40)) p)
                        @ drop (nat (n - remain k + 40)) (sha k),
               remain := remain k - n\<rparr>, n, err)"
proof -
  have a: "nat n - nat (remain k - 40) = nat (n - remain k + 40)"
    using assms by linarith
  have b: "min (nat (n - remain k + 40)) (length p - nat (remain k - 40)) = nat (n - remain k + 40)"
    using assms by linarith
  show ?thesis
    using assms by (simp add: keepFinalBytes_Read_def Let_def in_bounds_def copy_slice_def slice_def a b)
qed

lemma Read_copy_low:
  assumes "remain k < 40" "n \<le> remain k" "0 \<le> n" "n \<le> int (length p)"
  shows "keepFinalBytes_Read k p n err =
     Returns (k\<lparr>sha := take (nat (40 - remain k)) (sha k) @ take (nat n) p
                        @ drop (nat (40 - remain k) + nat n) (sha k),
               remain := remain k - n\<rparr>, n, err)"
proof -
  have a: "nat (n - remain k + 40) - nat (40 - remain k) = nat n"
    using assms by linarith
  have b: "min (nat n) (length p) = nat n"
    using assms by linarith
  show ?thesis
    using assms
    by (simp add: keepFinalBytes_Read_def Let_def in_bounds_def copy_slice_def slice_def a b)
qed

lemma window_high:
  assumes inv: "sha k = window S t" "remain k = S - int (length t)"
    and n: "0 \<le> n" "n \<le> int (length p)" "n \<le> remain k"
    and high: "\<not> remain k - n > 40" "40 \<le> remain k"
  shows "take (nat (n - remain k + 40)) (drop (nat (remain k - 40)) p)
           @ drop (nat (n - remain k + 40)) (sha k) = window S (t @ take (nat n) p)"
    (is "?new = _")
proof (rule nth_equalityI)
  let ?m = "nat (n - remain k + 40)"
  have lsha: "length (sha k) = 40"
    by (simp add: inv)
  have m: "?m \<le> 40" "nat (remain k - 40) + ?m = nat n" "nat n \<le> length p"
    using high n by linarith+
  have len: "length ?new = 40"
    using m lsha by simp
  then show "length ?new = length (window S (t @ take (nat n) p))"
    by simp
  fix j assume "j < length ?new"
  then have j: "j < 40"
    using len by simp
  show "?new ! j = window S (t @ take (nat n) p) ! j"
  proof (cases "j < ?m")
    case True
    have 1: "?new ! j = p ! (nat (remain k - 40) + j)"
      using True m by (simp add: nth_append)
    have 2: "nat (S - 40 + int j) = length t + (nat (remain k - 40) + j)"
      using inv high by linarith
    have 3: "0 \<le> S - 40 + int j" "S - 40 + int j < int (length t) + n"
      using True inv high by linarith+
    have 4: "nat (remain k - 40) + j < nat n"
      using True m by linarith
    have "window S (t @ take (nat n) p) ! j = (t @ take (nat n) p) ! nat (S - 40 + int j)"
      using j 3 n by (simp add: nth_window)
    also have "\<dots> = take (nat n) p ! (nat (remain k - 40) + j)"
      unfolding 2 by (simp add: nth_append)
    also have "\<dots> = p ! (nat (remain k - 40) + j)"
      using 4 by simp
    finally show ?thesis
      using 1 by simp
  next
    case False
    have 1: "?new ! j = sha k ! j"
      using False m j lsha by (simp add: nth_append)
    have 2: "S - 40 + int j \<ge> int (length t) + n"
      using False inv high by linarith
    have "window S (t @ take (nat n) p) ! j = 0"
      using j 2 n by (simp add: nth_window)
    moreover have "window S t ! j = 0"
      using j 2 n by (simp add: nth_window)
    ultimately show ?thesis
      using 1 inv by simp
  qed
qed

lemma window_low:
  assumes inv: "sha k = window S t" "remain k = S - int (length t)"
    and n: "0 \<le> n" "n \<le> int (length p)" "n \<le> remain k"
    and low: "remain k < 40"
  shows "take (nat (40 - remain k)) (sha k) @ take (nat n) p
           @ drop (nat (40 - remain k) + nat n) (sha k) = window S (t @ take (nat n) p)"
    (is "?new = _")
proof (rule nth_equalityI)
  let ?ki = "nat (40 - remain k)"
  have lsha: "length (sha k) = 40"
    by (simp add: inv)
  have ki: "?ki + nat n \<le> 40" "int ?ki = 40 - remain k" "nat n \<le> length p"
    using low n by linarith+
  have len: "length ?new = 40"
    using ki lsha by simp
  then show "length ?new = length (window S (t @ take (nat n) p))"
    by simp
  fix j assume "j < length ?new"
  then have j: "j < 40"
    using len by simp
  have pos: "S - 40 + int j = int (length t) + (int j - int ?ki)"
    using inv ki by simp
  have lt: "length (take ?ki (sha k)) = ?ki" "length (take (nat n) p) = nat n"
    using ki lsha by simp_all
  consider (before) "j < ?ki" | (inside) "?ki \<le> j" "j < ?ki + nat n" | (behind) "?ki + nat n \<le> j"
    by linarith
  then show "?new ! j = window S (t @ take (nat n) p) ! j"
  proof cases
    case before
    have 1: "?new ! j = sha k ! j"
      using before lt by (simp add: nth_append)
    have 2: "S - 40 + int j < int (length t)"
      using before pos by linarith
    then have 3: "0 \<le> S - 40 + int j \<Longrightarrow> nat (S - 40 + int j) < length t"
      by linarith
    have "window S (t @ take (nat n) p) ! j = window S t ! j"
      using j 2 3 n by (simp add: nth_window nth_append)
    then show ?thesis
      using 1 inv by simp
  next
    case inside
    have "j - ?ki < nat n" "\<not> j < ?ki"
      using inside by linarith+
    then have 1: "?new ! j = p ! (j - ?ki)"
      using lt by (simp add: nth_append)
    have 2: "nat (S - 40 + int j) = length t + (j - ?ki)"
      using inside pos by linarith
    have 3: "0 \<le> S - 40 + int j" "S - 40 + int j < int (length t) + n"
      using inside pos n by linarith+
    have 4: "j - ?ki < nat n"
      using inside by linarith
    have "window S (t @ take (nat n) p) ! j = (t @ take (nat n) p) ! nat (S - 40 + int j)"
      using j 3 n by (simp add: nth_window)
    also have "\<dots> = take (nat n) p ! (j - ?ki)"
      unfolding 2 by (simp add: nth_append)
    also have "\<dots> = p ! (j - ?ki)"
      using 4 by simp
    finally show ?thesis
      using 1 by simp
  next
    case behind
    have "\<not> j - ?ki < nat n" "\<not> j < ?ki" "j - ?ki - nat n = j - (?ki + nat n)"
      using behind by linarith+
    then have "?new ! j = drop (?ki + nat n) (sha k) ! (j - (?ki + nat n))"
      using lt by (simp add: nth_append)
    then have 1: "?new ! j = sha k ! j"
      using behind lsha j by simp
    have 2: "S - 40 + int j \<ge> int (length t) + n"
      using behind pos n by linarith
    have "window S (t @ take (nat n) p) ! j = 0"
      using j 2 n by (simp add: nth_window)
    moreover have "window S t ! j = 0"
      using j 2 n by (simp add: nth_window)
    ultimately show ?thesis
      using 1 inv by simp
  qed
qed

lemma Read_window:
  assumes inv: "sha k = window S t" "remain k = S - int (length t)"
    and n: "0 \<le> n" "n \<le> int (length p)" "n \<le> remain k"
  shows "\<exists>k'. keepFinalBytes_Read k p n err = Returns (k', n, err) \<and>
          sha k' = window S (t @ take (nat n) p) \<and>
          remain k' = S - int (length (t @ take (nat n) p))"
proof -
  have lc: "int (length (take (nat n) p)) = n"
    using n by simp
  have rem: "S - int (length (t @ take (nat n) p)) = remain k - n"
    using n inv(2) by simp
  consider (far) "remain k - n > 40" | (high) "\<not> remain k - n > 40" "40 \<le> remain k"
    | (low) "remain k < 40"
    by linarith
  then show ?thesis
  proof cases
    case far
    then have "int (length t) + n < S - 40"
      using inv by simp
    then have "window S (t @ take (nat n) p) = window S t"
      using n(1) lc by (rule window_far)
    then show ?thesis
      unfolding rem Read_skip [OF far] using inv(1) by simp
  next
    case high
    show ?thesis
      unfolding rem Read_copy_high [OF high n(3) n(1) n(2)]
      by (simp add: window_high [OF inv n high])
  next
    case low
    show ?thesis
      unfolding rem Read_copy_low [OF low n(3) n(1) n(2)]
      by (simp add: window_low [OF inv n low])
  qed
qed

lemma window_Nil: "window S [] = replicate 40 0"
  by (rule nth_equalityI) (auto simp: nth_window)

lemma window_full:
  "window (int (length s)) s = replicate (40 - length s) 0 @ drop (length s - 40) s"
proof (rule nth_equalityI)
  show "length (window (int (length s)) s) = length (replicate (40 - length s) 0 @ drop (length s - 40) s)"
    by simp
  fix j assume "j < length (window (int (length s)) s)"
  then have j: "j < 40"
    by simp
  show "window (int (length s)) s ! j = (replicate (40 - length s) 0 @ drop (length s - 40) s) ! j"
  proof (cases "j < 40 - length s")
    case True
    then have "\<not> 0 \<le> int (length s) - 40 + int j"
      by linarith
    then show ?thesis
      using j True by (simp add: nth_window nth_append)
  next
    case False
    then have "nat (int (length s) - 40 + int j) = length s - 40 + (j - (40 - length s))"
      "0 \<le> int (length s) - 40 + int j" "int (length s) - 40 + int j < int (length s)"
      using j by linarith+
    then show ?thesis
      using j False by (simp add: nth_window nth_append)
  qed
qed

lemma read_n_simp [simp]: "read_n (p, n, err) = n"
  by (simp add: read_n_def)

lemma delivered_Nil [simp]: "delivered [] = []"
  by (simp add: delivered_def)

lemma delivered_Cons [simp]: "delivered ((p, n, err) # rs) = take (nat n) p @ delivered rs"
  by (simp add: delivered_def)

lemma length_delivered:
  "\<forall>r\<in>set rs. well_formed_read r \<Longrightarrow> int (length (delivered rs)) = sum_list (map read_n rs)"
  by (induction rs) (auto simp: well_formed_read_def)

lemma sum_reads_nonneg:
  "\<forall>r\<in>set rs. well_formed_read r \<Longrightarrow> 0 \<le> sum_list (map read_n rs)"
  by (induction rs) (auto simp: well_formed_read_def)

lemma Reads_window:
  assumes "sha k = window S t" "remain k = S - int (length t)"
    and "\<forall>r\<in>set rs. well_formed_read r"
    and "sum_list (map read_n rs) \<le> remain k"
  shows "\<exists>k'. Reads k rs = Returns (k', map snd rs) \<and>
          sha k' = window S (t @ delivered rs) \<and>
          remain k' = S - int (length (t @ delivered rs))"
  using assms
proof (induction rs arbitrary: k t)
  case Nil
  then show ?case by simp
next
  case (Cons r rs)
  obtain p n err where r: "r = (p, n, err)"
    by (cases r)
  have wf: "0 \<le> n" "n \<le> int (length p)" and wfs: "\<forall>r\<in>set rs. well_formed_read r"
    using Cons.prems(3) by (simp_all add: r well_formed_read_def)
  have "0 \<le> sum_list (map read_n rs)"
    using wfs by (rule sum_reads_nonneg)
  then have le: "n \<le> remain k" and rest: "sum_list (map read_n rs) \<le> remain k - n"
    using Cons.prems(4) by (simp_all add: r)
  obtain k1 where k1: "keepFinalBytes_Read k p n err = Returns (k1, n, err)"
      "sha k1 = window S (t @ take (nat n) p)"
      "remain k1 = S - int (length (t @ take (nat n) p))"
    using Read_window [OF Cons.prems(1,2) wf le] by blast
  have "remain k1 = remain k - n"
    using k1(3) Cons.prems(2) wf by simp
  with rest have rest1: "sum_list (map read_n rs) \<le> remain k1"
    by simp
  obtain k' where k': "Reads k1 rs = Returns (k', map snd rs)"
      "sha k' = window S ((t @ take (nat n) p) @ delivered rs)"
      "remain k' = S - int (length ((t @ take (nat n) p) @ delivered rs))"
    using Cons.IH [OF k1(2,3) wfs rest1] by blast
  show ?case
    using k1(1) k' by (simp add: r)
qed

text \<open>
  C3. Let the reads of the wrapped reader be well formed and deliver the stream \<open>s\<close>, cut
  into chunks in any way, and let the filter start with the length of \<open>s\<close> as its count.
  Then no call of \<open>Read\<close> panics, each call returns the count and the error of the
  wrapped reader, and afterwards the 40-byte array holds the last 40 bytes of \<open>s\<close>; when
  \<open>s\<close> is shorter than 40 bytes, the array ends with the whole of \<open>s\<close>, after the
  zero bytes that it started with.
\<close>

theorem keepFinalBytes_captures_final_bytes:
  assumes "\<forall>r\<in>set rs. well_formed_read r" and "delivered rs = s"
  shows "\<exists>k'. Reads (new_keepFinalBytes (int (length s))) rs
             = Returns (k', map snd rs) \<and>
          sha k' = replicate (40 - length s) 0 @ drop (length s - 40) s \<and>
          remain k' = 0"
proof -
  let ?k = "new_keepFinalBytes (int (length s))"
  have 1: "sha ?k = window (int (length s)) []"
    by (simp add: new_keepFinalBytes_def window_Nil)
  have 2: "remain ?k = int (length s) - int (length ([]::byte list))"
    by (simp add: new_keepFinalBytes_def)
  have 3: "sum_list (map read_n rs) \<le> remain ?k"
    using length_delivered [OF assms(1)] assms(2) by (simp add: new_keepFinalBytes_def)
  show ?thesis
    using Reads_window [OF 1 2 assms(1) 3] by (simp add: assms(2) window_full)
qed

lemma Read_in_bounds:
  assumes "length (sha k) = 40" "0 \<le> n" "n \<le> int (length p)" "n \<le> remain k"
  shows "\<exists>k'. keepFinalBytes_Read k p n err = Returns (k', n, err) \<and>
           length (sha k') = 40 \<and> remain k' = remain k - n"
proof -
  consider (far) "remain k - n > 40" | (high) "\<not> remain k - n > 40" "40 \<le> remain k"
    | (low) "remain k < 40"
    by linarith
  then show ?thesis
  proof cases
    case far
    then show ?thesis
      using assms(1) by (simp add: Read_skip)
  next
    case high
    have "nat (n - remain k + 40) \<le> 40" "nat (n - remain k + 40) \<le> length p - nat (remain k - 40)"
      using high assms by linarith+
    then show ?thesis
      unfolding Read_copy_high [OF high assms(4,2,3)] using assms(1) by simp
  next
    case low
    have "nat (40 - remain k) + nat n \<le> 40" "nat n \<le> length p"
      using low assms by linarith+
    then show ?thesis
      unfolding Read_copy_low [OF low assms(4,2,3)] using assms(1) by simp
  qed
qed

lemma Read_out_of_bounds:
  assumes "remain k < n"
  shows "keepFinalBytes_Read k p n err = Panics"
  using assms by (simp add: keepFinalBytes_Read_def Let_def in_bounds_def)

lemma Reads_in_bounds:
  assumes "length (sha k) = 40" "\<forall>r\<in>set rs. well_formed_read r"
    and "sum_list (map read_n rs) \<le> remain k"
  shows "\<exists>k'. Reads k rs = Returns (k', map snd rs) \<and> length (sha k') = 40"
  using assms
proof (induction rs arbitrary: k)
  case Nil
  then show ?case by simp
next
  case (Cons r rs)
  obtain p n err where r: "r = (p, n, err)"
    by (cases r)
  have wf: "0 \<le> n" "n \<le> int (length p)" and wfs: "\<forall>r\<in>set rs. well_formed_read r"
    using Cons.prems(2) by (simp_all add: r well_formed_read_def)
  have "0 \<le> sum_list (map read_n rs)"
    using wfs by (rule sum_reads_nonneg)
  then have le: "n \<le> remain k" and rest: "sum_list (map read_n rs) \<le> remain k - n"
    using Cons.prems(3) by (simp_all add: r)
  obtain k1 where k1: "keepFinalBytes_Read k p n err = Returns (k1, n, err)"
      "length (sha k1) = 40" "remain k1 = remain k - n"
    using Read_in_bounds [OF Cons.prems(1) wf le] by blast
  obtain k' where "Reads k1 rs = Returns (k', map snd rs)" "length (sha k') = 40"
    using Cons.IH [OF k1(2) wfs] rest k1(3) by auto
  then show ?case
    using k1(1) by (simp add: r)
qed

text \<open>
  C10. For a filter with its 40-byte array and well-formed reads whose counts add up to no
  more than the filter's remaining count, no call of \<open>Read\<close> panics: every slice is
  within bounds. The condition is needed: a single well-formed read panics exactly when
  its count is larger than the remaining count.
\<close>

theorem keepFinalBytes_in_bounds:
  "(length (sha k) = 40 \<and> (\<forall>r\<in>set rs. well_formed_read r) \<and>
      sum_list (map read_n rs) \<le> remain k \<longrightarrow>
      (\<exists>k'. Reads k rs = Returns (k', map snd rs) \<and> length (sha k') = 40)) \<and>
   (length (sha k) = 40 \<and> well_formed_read (p, n, err) \<longrightarrow>
      (keepFinalBytes_Read k p n err = Panics \<longleftrightarrow> remain k < n))"
proof (intro conjI impI)
  assume "length (sha k) = 40 \<and> (\<forall>r\<in>set rs. well_formed_read r) \<and>
      sum_list (map read_n rs) \<le> remain k"
  then show "\<exists>k'. Reads k rs = Returns (k', map snd rs) \<and> length (sha k') = 40"
    using Reads_in_bounds by blast
next
  assume a: "length (sha k) = 40 \<and> well_formed_read (p, n, err)"
  show "keepFinalBytes_Read k p n err = Panics \<longleftrightarrow> remain k < n"
  proof (cases "remain k < n")
    case True
    then show ?thesis
      by (simp add: Read_out_of_bounds)
  next
    case False
    then obtain k' where "keepFinalBytes_Read k p n err = Returns (k', n, err)"
      using Read_in_bounds [of k n p err] a by (auto simp: well_formed_read_def)
    with False show ?thesis
      by simp
  qed
qed

text \<open>A stream of 41 bytes, read in chunks of 7 bytes: the array holds bytes 2 to 41.\<close>

theorem keepFinalBytes_captures_final_bytes_witness:
  "\<exists>k'. Reads (new_keepFinalBytes 41)
          [([1, 2, 3, 4, 5, 6, 7], 7, None), ([8, 9, 10, 11, 12, 13, 14], 7, None),
           ([15, 16, 17, 18, 19, 20, 21], 7, None), ([22, 23, 24, 25, 26, 27, 28], 7, None),
           ([29, 30, 31, 32, 33, 34, 35], 7, None), ([36, 37, 38, 39, 40, 41, 0], 6, Some EOF)]
        = Returns (k', [(7, None), (7, None), (7, None), (7, None), (7, None), (6, Some EOF)]) \<and>
        sha k' = [2, 3, 4, 5, 6, 7, 8, 9, 10, 11, 12, 13, 14, 15,
                  16, 17, 18, 19, 20, 21, 22, 23, 24, 25, 26, 27, 28, 29,
                  30, 31, 32, 33, 34, 35, 36, 37, 38, 39, 40, 41] \<and>
        remain k' = 0"
  using keepFinalBytes_captures_final_bytes
    [of "[([1, 2, 3, 4, 5, 6, 7], 7, None), ([8, 9, 10, 11, 12, 13, 14], 7, None),
          ([15, 16, 17, 18, 19, 20, 21], 7, None), ([22, 23, 24, 25, 26, 27, 28], 7, None),
          ([29, 30, 31, 32, 33, 34, 35], 7, None), ([36, 37, 38, 39, 40, 41, 0], 6, Some EOF)]"
        "[1, 2, 3, 4, 5, 6, 7, 8, 9, 10, 11, 12, 13, 14,
          15, 16, 17, 18, 19, 20, 21, 22, 23, 24, 25, 26, 27, 28,
          29, 30, 31, 32, 33, 34, 35, 36, 37, 38, 39, 40, 41]"]
  by (simp add: well_formed_read_def)

theorem keepFinalBytes_in_bounds_witness:
  "(\<exists>k'. Reads \<lparr>remain = 10, sha = replicate 40 0\<rparr>
           [([1, 2, 3, 4, 5, 6, 7], 7, None), ([8, 9, 10, 0, 0, 0, 0], 3, Some EOF)]
         = Returns (k', [(7, None), (3, Some EOF)]) \<and> length (sha k') = 40) \<and>
   keepFinalBytes_Read \<lparr>remain = 0, sha = replicate 40 0\<rparr> [1] 1 None = Panics"
  using keepFinalBytes_in_bounds
    [of "\<lparr>remain = 10, sha = replicate 40 0\<rparr>"
        "[([1, 2, 3, 4, 5, 6, 7], 7, None), ([8, 9, 10, 0, 0, 0, 0], 3, Some EOF)]"
        "[1]" 1 None]
    keepFinalBytes_in_bounds
    [of "\<lparr>remain = 0, sha = replicate 40 0\<rparr>" "[]" "[1]" 1 None]
  by (simp add: well_formed_read_def)

section \<open>Properties of the large-file upload protocol\<close>

subsection \<open>A failed upload of a part\<close>

text \<open>
  C9. When the request of \<open>UploadPart\<close> returns an error, \<open>UploadPart\<close> returns 0 and
  that error, and the session is the one before the call: no hash is stored and the size
  is not changed. Conversely, whenever \<open>UploadPart\<close> returns an error, the count is 0 and
  the session is unchanged.
\<close>

theorem UploadPart_error_atomic:
  "(makeRequest_upload env (url fc) (upload_headers fc sha1 sz index) (upload_body sha1 sz)
      = Returns (Some err, r) \<longrightarrow>
    UploadPart env fc l sha1 sz index = Returns ((0, Some err), l)) \<and>
   (UploadPart env fc l sha1 sz index = Returns ((n, Some err), l') \<longrightarrow> n = 0 \<and> l' = l)"
  by (auto simp: UploadPart_def split: outcome.splits option.splits if_splits)

theorem UploadPart_error_atomic_witness:
  "UploadPart \<lparr>body_reads = [], reply = (\<lambda>u h. Some (errorString ''connection reset''))\<rparr>
      \<lparr>url = ''https://pod.example/part'', token = ''t''\<rparr>
      \<lparr>lf_ID = ''f1'', lf_b2 = example_b2, lf_size = 7, lf_hashes = [1 \<mapsto> ''a'']\<rparr>
      ''b'' 5 2
    = Returns ((0, Some (errorString ''connection reset'')),
        \<lparr>lf_ID = ''f1'', lf_b2 = example_b2, lf_size = 7, lf_hashes = [1 \<mapsto> ''a'']\<rparr>)"
  using UploadPart_error_atomic
    [of "\<lparr>body_reads = [], reply = (\<lambda>u h. Some (errorString ''connection reset''))\<rparr>"
        "\<lparr>url = ''https://pod.example/part'', token = ''t''\<rparr>" "''b''" 5 2
        "errorString ''connection reset''" None
        "\<lparr>lf_ID = ''f1'', lf_b2 = example_b2, lf_size = 7, lf_hashes = [1 \<mapsto> ''a'']\<rparr>"]
  by (simp add: makeRequest_upload_def upload_body_def)

subsection \<open>Finishing with a gap in the part numbers\<close>

lemma show_int_4: "show_int 4 = ''4''"
  by (simp add: show_int_def show_nat.simps digit_char_def)

lemma fill_Hashes_invalid_index:
  assumes "\<forall>k\<in>set ks. 1 \<le> k" "find (\<lambda>k. int (length hs) < k) ks = Some k0" "set ks \<subseteq> dom m"
  shows "fill_Hashes ks m hs =
     Returns (Inl (errorString (''b2_finish_large_file: invalid index '' @ show_int k0)))"
  using assms
proof (induction ks arbitrary: hs)
  case Nil
  then show ?case by simp
next
  case (Cons k ks)
  obtain v where v: "m k = Some v"
    using Cons.prems(3) by auto
  show ?case
  proof (cases "int (length hs) < k")
    case True
    then show ?thesis
      using Cons.prems(2) v by simp
  next
    case False
    then have "find (\<lambda>k. int (length (hs[nat (k - 1) := v])) < k) ks = Some k0"
      using Cons.prems(2) by simp
    then have "fill_Hashes ks m (hs[nat (k - 1) := v]) =
       Returns (Inl (errorString (''b2_finish_large_file: invalid index '' @ show_int k0)))"
      using Cons.prems(1,3) by (intro Cons.IH) auto
    then show ?thesis
      using False v Cons.prems(1) by simp
  qed
qed

lemma gap_has_large_key:
  assumes "distinct ks" "\<forall>k\<in>set ks. 1 \<le> k" "\<not> (\<exists>N. set ks = {1..N})"
  shows "\<exists>k\<in>set ks. int (length ks) < k"
proof (rule ccontr)
  assume "\<not> (\<exists>k\<in>set ks. int (length ks) < k)"
  then have sub: "set ks \<subseteq> {1..int (length ks)}"
    using assms(2) by auto
  have "card (set ks) = card {1..int (length ks)}"
    using assms(1) by (simp add: distinct_card)
  then have "set ks = {1..int (length ks)}"
    using sub by (intro card_subset_eq) auto
  then show False
    using assms(3) by blast
qed

text \<open>
  C1 (as amended). Let the keys of the hash mapping be positive and not of the form
  \<open>{1..N}\<close>, and let \<open>ks\<close> be the order in which the loop visits them. Then
  \<open>FinishLargeFile\<close> returns the error \<open>b2_finish_large_file: invalid index k\<close> and
  sends no request, where \<open>k\<close> is the first key in that order that is larger than the
  number of keys: the error names a key that is present and too large, not the missing one.
\<close>

theorem FinishLargeFile_gap:
  assumes "distinct ks" "set ks = dom (lf_hashes l)" "\<forall>k\<in>set ks. 1 \<le> k"
    and "\<not> (\<exists>N. set ks = {1..N})"
  shows "\<exists>k\<in>set ks. int (length ks) < k \<and>
           find (\<lambda>k. int (length ks) < k) ks = Some k \<and>
           FinishLargeFile rpc ks l =
             Returns (Inl (errorString (''b2_finish_large_file: invalid index '' @ show_int k)), [])"
proof -
  obtain k where k: "find (\<lambda>k. int (length ks) < k) ks = Some k"
    using gap_has_large_key [OF assms(1,3,4)] by (cases "find (\<lambda>k. int (length ks) < k) ks") (auto simp: find_None_iff)
  then have "k \<in> set ks" "int (length ks) < k"
    by (auto simp: find_Some_iff)
  moreover have "fill_Hashes ks (lf_hashes l) (replicate (length ks) '''') =
      Returns (Inl (errorString (''b2_finish_large_file: invalid index '' @ show_int k)))"
    using assms(2,3) k by (intro fill_Hashes_invalid_index) auto
  ultimately show ?thesis
    using k by (auto simp: FinishLargeFile_def)
qed

theorem FinishLargeFile_gap_witness:
  "FinishLargeFile (\<lambda>u h r. Inr \<lparr>resp_Name = ''n'', resp_FileID = ''f1'', resp_Timestamp = 0, resp_Action = ''upload''\<rparr>)
      [4, 1, 2]
      \<lparr>lf_ID = ''f1'', lf_b2 = example_b2, lf_size = 3, lf_hashes = [1 \<mapsto> ''a'', 2 \<mapsto> ''b'', 4 \<mapsto> ''c'']\<rparr>
    = Returns (Inl (errorString ''b2_finish_large_file: invalid index 4''), [])"
proof -
  have "\<not> (\<exists>N. set [4, 1, 2::int] = {1..N})"
  proof
    assume "\<exists>N. set [4, 1, 2::int] = {1..N}"
    then obtain N where N: "set [4, 1, 2::int] = {1..N}" ..
    then have "4 \<in> {1..N}" by auto
    then have "3 \<in> {1..N}" by auto
    then have "(3::int) \<in> set [4, 1, 2]" unfolding N .
    then show False by simp
  qed
  then show ?thesis
    using FinishLargeFile_gap [of "[4, 1, 2]"
      "\<lparr>lf_ID = ''f1'', lf_b2 = example_b2, lf_size = 3, lf_hashes = [1 \<mapsto> ''a'', 2 \<mapsto> ''b'', 4 \<mapsto> ''c'']\<rparr>"
      "\<lambda>u h r. Inr \<lparr>resp_Name = ''n'', resp_FileID = ''f1'', resp_Timestamp = 0, resp_Action = ''upload''\<rparr>"]
    by (auto simp: show_int_4)
qed

text \<open>
  C1 (as stated) fails: for the mapping \<open>{1: a, 2: b, 4: c}\<close> the error names part 4,
  not the missing part 3.
\<close>

theorem FinishLargeFile_gap_counterexample:
  "FinishLargeFile (\<lambda>u h r. Inr \<lparr>resp_Name = ''n'', resp_FileID = ''f1'', resp_Timestamp = 0, resp_Action = ''upload''\<rparr>)
      [1, 2, 4]
      \<lparr>lf_ID = ''f1'', lf_b2 = example_b2, lf_size = 3, lf_hashes = [1 \<mapsto> ''a'', 2 \<mapsto> ''b'', 4 \<mapsto> ''c'']\<rparr>
    = Returns (Inl (errorString ''b2_finish_large_file: invalid index 4''), [])"
  by (simp add: FinishLargeFile_def show_int_def show_nat.simps digit_char_def)

text \<open>
  A key below 1 is outside the amended statement: the check of the loop lets it pass and
  the assignment to \<open>b2req.Hashes[k-1]\<close> panics.
\<close>

lemma FinishLargeFile_key_zero_panics:
  "FinishLargeFile example_rpc [0, 1]
      \<lparr>lf_ID = ''f1'', lf_b2 = example_b2, lf_size = 2, lf_hashes = [0 \<mapsto> ''a'', 1 \<mapsto> ''b'']\<rparr>
    = Panics"
  by (simp add: FinishLargeFile_def)

subsection \<open>Uploading all parts, then finishing\<close>

lemma UploadPart_success:
  assumes "UploadPart env fc l sha1 sz index = Returns ((n, None), l')"
  shows "\<exists>h. \<forall>l2. UploadPart env fc l2 sha1 sz index = Returns ((sz, None), store_part l2 index h sz)"
  using assms by (auto simp: UploadPart_def split: outcome.splits option.splits if_splits)

lemma UploadParts_all_succeed:
  assumes "UploadParts l cs = Returns (outs, l')" "\<forall>out\<in>set outs. snd out = None"
  shows "\<forall>c\<in>set cs. \<exists>h. \<forall>l2. UploadPart (call_env c) (call_fc c) l2 (call_sha1 c) (call_size c) (call_index c)
            = Returns ((call_size c, None), store_part l2 (call_index c) h (call_size c))"
  using assms
proof (induction cs arbitrary: l outs)
  case Nil
  then show ?case by simp
next
  case (Cons c cs)
  obtain out l1 outs1 where
    1: "UploadPart (call_env c) (call_fc c) l (call_sha1 c) (call_size c) (call_index c) = Returns (out, l1)"
    and 2: "UploadParts l1 cs = Returns (outs1, l')" and 3: "outs = out # outs1"
    using Cons.prems(1) by (auto split: outcome.splits)
  have "snd out = None" "\<forall>out\<in>set outs1. snd out = None"
    using Cons.prems(2) 3 by auto
  then show ?case
    using UploadPart_success [of "call_env c" "call_fc c" l "call_sha1 c" "call_size c" "call_index c" "fst out" l1]
      1 Cons.IH [OF 2] by (cases out) auto
qed

lemma UploadParts_fold:
  assumes "\<forall>c\<in>set cs. \<forall>l2. UploadPart (call_env c) (call_fc c) l2 (call_sha1 c) (call_size c) (call_index c)
            = Returns ((call_size c, None), store_part l2 (call_index c) (H c) (call_size c))"
  shows "UploadParts l cs = Returns (map (\<lambda>c. (call_size c, None)) cs,
           foldl (\<lambda>l c. store_part l (call_index c) (H c) (call_size c)) l cs)"
  using assms by (induction cs arbitrary: l) auto

lemma map_add_rev_Cons: "m(k \<mapsto> h) ++ map_of (rev xs) = m ++ map_of (rev ((k, h) # xs))"
  by (rule ext) (simp add: map_add_def split: option.splits)

lemma foldl_store_part:
  "foldl (\<lambda>l c. store_part l (call_index c) (H c) (call_size c)) l cs =
     l\<lparr>lf_hashes := lf_hashes l ++ map_of (rev (map (\<lambda>c. (call_index c, H c)) cs)),
       lf_size := lf_size l + word_of_int (sum_list (map call_size cs))\<rparr>"
proof (induction cs arbitrary: l)
  case Nil
  then show ?case by simp
next
  case (Cons c cs)
  have "lf_hashes (store_part l (call_index c) (H c) (call_size c))
          ++ map_of (rev (map (\<lambda>c. (call_index c, H c)) cs))
        = lf_hashes l ++ map_of (rev (map (\<lambda>c. (call_index c, H c)) (c # cs)))"
    using map_add_rev_Cons [of "lf_hashes l" "call_index c" "H c" "map (\<lambda>c. (call_index c, H c)) cs"]
    by (simp add: store_part_def)
  moreover have "lf_size (store_part l (call_index c) (H c) (call_size c))
          + word_of_int (sum_list (map call_size cs))
        = lf_size l + word_of_int (sum_list (map call_size (c # cs)))"
    by (simp add: store_part_def)
  ultimately show ?case
    by (simp add: Cons.IH) (simp add: store_part_def)
qed

lemma map_of_perm:
  assumes "mset xs = mset ys" "distinct (map fst xs)"
  shows "map_of xs = map_of ys"
proof -
  have "mset (map fst xs) = mset (map fst ys)"
    using assms(1) by simp
  then have "distinct (map fst ys)"
    using assms(2) mset_eq_imp_distinct_iff by blast
  moreover have "set xs = set ys"
    using assms(1) mset_eq_setD by blast
  ultimately show ?thesis
    using assms(2) by (simp add: map_of_inject_set)
qed

lemma foldl_store_part_perm:
  assumes "mset cs' = mset cs" "distinct (map call_index cs)"
  shows "foldl (\<lambda>l c. store_part l (call_index c) (H c) (call_size c)) l cs' =
         foldl (\<lambda>l c. store_part l (call_index c) (H c) (call_size c)) l cs"
proof -
  let ?kv = "\<lambda>c. (call_index c, H c)"
  have "mset (rev (map ?kv cs')) = mset (rev (map ?kv cs))"
    using assms(1) by simp
  moreover have "distinct (map fst (rev (map ?kv cs')))"
  proof -
    have "mset (map call_index cs') = mset (map call_index cs)"
      using assms(1) by simp
    then have "distinct (map call_index cs')"
      using assms(2) mset_eq_imp_distinct_iff by blast
    then show ?thesis
      by (simp add: rev_map [symmetric] comp_def)
  qed
  ultimately have "map_of (rev (map ?kv cs')) = map_of (rev (map ?kv cs))"
    by (rule map_of_perm)
  moreover have "sum_list (map call_size cs') = sum_list (map call_size cs)"
  proof -
    have "mset (map call_size cs') = mset (map call_size cs)"
      using assms(1) by simp
    then have "sum_mset (mset (map call_size cs')) = sum_mset (mset (map call_size cs))"
      by (rule arg_cong)
    then show ?thesis
      by (simp only: sum_mset_sum_list)
  qed
  ultimately show ?thesis
    by (simp add: foldl_store_part)
qed

lemma fill_Hashes_in_range:
  assumes "\<forall>k\<in>set ks. 1 \<le> k \<and> k \<le> int (length hs)" "set ks \<subseteq> dom m"
  shows "fill_Hashes ks m hs = Returns (Inr (foldl (\<lambda>hs k. hs[nat (k - 1) := the (m k)]) hs ks))"
  using assms
proof (induction ks arbitrary: hs)
  case Nil
  then show ?case by simp
next
  case (Cons k ks)
  obtain v where v: "m k = Some v"
    using Cons.prems(2) by auto
  have "fill_Hashes ks m (hs[nat (k - 1) := v]) =
      Returns (Inr (foldl (\<lambda>hs k. hs[nat (k - 1) := the (m k)]) (hs[nat (k - 1) := v]) ks))"
    using Cons.prems by (intro Cons.IH) auto
  then show ?case
    using Cons.prems(1) v by simp
qed

lemma foldl_list_update:
  assumes "\<forall>k\<in>set ks. 1 \<le> k \<and> k \<le> int (length hs)"
  shows "foldl (\<lambda>hs k. hs[nat (k - 1) := the (m k)]) hs ks =
     map (\<lambda>i. if int i + 1 \<in> set ks then the (m (int i + 1)) else hs ! i) [0..<length hs]"
  using assms
proof (induction ks arbitrary: hs)
  case Nil
  then show ?case
    by (simp add: map_nth)
next
  case (Cons k ks)
  let ?hs = "hs[nat (k - 1) := the (m k)]"
  have k: "1 \<le> k" "k \<le> int (length hs)"
    using Cons.prems by simp_all
  have "foldl (\<lambda>hs k. hs[nat (k - 1) := the (m k)]) ?hs ks =
     map (\<lambda>i. if int i + 1 \<in> set ks then the (m (int i + 1)) else ?hs ! i) [0..<length ?hs]"
    using Cons.prems by (intro Cons.IH) simp
  also have "\<dots> = map (\<lambda>i. if int i + 1 \<in> set (k # ks) then the (m (int i + 1)) else hs ! i) [0..<length hs]"
  proof (rule nth_equalityI)
    show "length (map (\<lambda>i. if int i + 1 \<in> set ks then the (m (int i + 1)) else ?hs ! i) [0..<length ?hs])
        = length (map (\<lambda>i. if int i + 1 \<in> set (k # ks) then the (m (int i + 1)) else hs ! i) [0..<length hs])"
      by simp
    fix i
    assume "i < length (map (\<lambda>i. if int i + 1 \<in> set ks then the (m (int i + 1)) else ?hs ! i) [0..<length ?hs])"
    then have i: "i < length hs"
      by simp
    have "i = nat (k - 1) \<longleftrightarrow> int i + 1 = k"
      using k by linarith
    then show "map (\<lambda>i. if int i + 1 \<in> set ks then the (m (int i + 1)) else ?hs ! i) [0..<length ?hs] ! i
        = map (\<lambda>i. if int i + 1 \<in> set (k # ks) then the (m (int i + 1)) else hs ! i) [0..<length hs] ! i"
      using i by (auto simp: nth_list_update)
  qed
  finally show ?case
    by simp
qed

lemma fill_Hashes_dense:
  assumes "set ks = {1..int N}" "length ks = N" "set ks \<subseteq> dom m"
  shows "fill_Hashes ks m (replicate N '''') = Returns (Inr (map (\<lambda>i. the (m (int i + 1))) [0..<N]))"
proof -
  have "fill_Hashes ks m (replicate N '''') =
      Returns (Inr (foldl (\<lambda>hs k. hs[nat (k - 1) := the (m k)]) (replicate N '''') ks))"
    using assms by (intro fill_Hashes_in_range) auto
  also have "foldl (\<lambda>hs k. hs[nat (k - 1) := the (m k)]) (replicate N '''') ks =
      map (\<lambda>i. if int i + 1 \<in> set ks then the (m (int i + 1)) else replicate N '''' ! i)
        [0..<length (replicate N (''''::string))]"
    using assms by (intro foldl_list_update) auto
  also have "\<dots> = map (\<lambda>i. the (m (int i + 1))) [0..<N]"
    using assms(1) by (auto intro!: map_cong)
  finally show ?thesis .
qed

lemma FinishLargeFile_order:
  assumes "set ks = {1..int (length ks)}" "set ks' = set ks" "length ks' = length ks"
    and "set ks = dom (lf_hashes l)"
  shows "FinishLargeFile rpc ks' l = FinishLargeFile rpc ks l"
proof -
  have "fill_Hashes ks (lf_hashes l) (replicate (length ks) '''') =
      Returns (Inr (map (\<lambda>i. the (lf_hashes l (int i + 1))) [0..<length ks]))"
    using assms by (intro fill_Hashes_dense) auto
  moreover have "fill_Hashes ks' (lf_hashes l) (replicate (length ks) '''') =
      Returns (Inr (map (\<lambda>i. the (lf_hashes l (int i + 1))) [0..<length ks]))"
    using assms by (intro fill_Hashes_dense) auto
  ultimately show ?thesis
    by (simp add: FinishLargeFile_def assms(3))
qed

lemma FinishLargeFile_Size:
  assumes "FinishLargeFile rpc ks l = Returns (Inr f, tr)"
  shows "Size f = lf_size l"
  using assms
  by (auto simp: FinishLargeFile_def Let_def split: outcome.splits sum.splits)

text \<open>
  C4. On a session that \<open>StartLargeFile\<close> has made, let the calls \<open>cs\<close> of
  \<open>UploadPart\<close>, with the part numbers 1 to N, each once, all succeed, and let
  \<open>FinishLargeFile\<close> then succeed with the file \<open>f\<close>. Then the size of \<open>f\<close> is the
  sum of the sizes of the calls, in int64 arithmetic, and is that sum as an integer when
  the sum fits into an int64. The calls in any other order \<open>cs'\<close> succeed as well and
  leave the same session, and \<open>FinishLargeFile\<close> returns the same file and sends the same
  request in whatever order \<open>ks'\<close> its loop visits the keys.
\<close>

theorem UploadParts_Finish_size:
  assumes start: "StartLargeFile (Inr fileId) b = Inr l0"
    and up: "UploadParts l0 cs = Returns (outs, l1)" "\<forall>out\<in>set outs. snd out = None"
    and idx: "distinct (map call_index cs)" "set (map call_index cs) = {1..int (length cs)}"
    and ks: "distinct ks" "set ks = dom (lf_hashes l1)"
    and fin: "FinishLargeFile rpc ks l1 = Returns (Inr f, tr)"
    and perm: "mset cs' = mset cs"
    and ks': "distinct ks'" "set ks' = dom (lf_hashes l1)"
  shows "Size f = word_of_int (sum_list (map call_size cs)) \<and>
     (0 \<le> sum_list (map call_size cs) \<and> sum_list (map call_size cs) < 2 ^ 63 \<longrightarrow>
        sint (Size f) = sum_list (map call_size cs)) \<and>
     (\<exists>outs'. UploadParts l0 cs' = Returns (outs', l1) \<and> (\<forall>out\<in>set outs'. snd out = None)) \<and>
     FinishLargeFile rpc ks' l1 = Returns (Inr f, tr)"
proof -
  let ?step = "\<lambda>H l c. store_part l (call_index c) (H c) (call_size c)"
  have l0: "lf_size l0 = 0" "lf_hashes l0 = Map.empty"
    using start by (auto simp: StartLargeFile_def)
  obtain H where H: "\<forall>c\<in>set cs. \<forall>l2.
      UploadPart (call_env c) (call_fc c) l2 (call_sha1 c) (call_size c) (call_index c)
        = Returns ((call_size c, None), store_part l2 (call_index c) (H c) (call_size c))"
    using bchoice [OF UploadParts_all_succeed [OF up]] by blast
  have l1: "l1 = foldl (?step H) l0 cs"
    using UploadParts_fold [OF H, of l0] up(1) by simp
  have "set cs' = set cs"
    using perm by (rule mset_eq_setD)
  then have "UploadParts l0 cs' = Returns (map (\<lambda>c. (call_size c, None)) cs', foldl (?step H) l0 cs')"
    using H by (intro UploadParts_fold) simp
  then have 3: "\<exists>outs'. UploadParts l0 cs' = Returns (outs', l1) \<and> (\<forall>out\<in>set outs'. snd out = None)"
    using foldl_store_part_perm [OF perm idx(1), of H l0] l1 by auto
  have size1: "lf_size l1 = word_of_int (sum_list (map call_size cs))"
    by (simp add: l1 foldl_store_part l0)
  then have 1: "Size f = word_of_int (sum_list (map call_size cs))"
    using FinishLargeFile_Size [OF fin] by simp
  have 2: "sint (Size f) = sum_list (map call_size cs)"
    if "0 \<le> sum_list (map call_size cs) \<and> sum_list (map call_size cs) < 2 ^ 63"
    using that unfolding 1 by (simp add: sint_sbintrunc' signed_take_bit_int_eq_self)
  have "dom (lf_hashes l1) = set (map call_index cs)"
    by (simp add: l1 foldl_store_part l0 dom_map_of_conv_image_fst image_image)
  then have dense: "set ks = {1..int (length cs)}" "set ks' = {1..int (length cs)}"
    using ks(2) ks'(2) idx(2) by simp_all
  have "length ks = card (set ks)" "length ks' = card (set ks')"
    using ks(1) ks'(1) by (simp_all add: distinct_card)
  then have len: "length ks = length cs" "length ks' = length cs"
    using dense by simp_all
  have "FinishLargeFile rpc ks' l1 = FinishLargeFile rpc ks l1"
    using dense len ks(2) by (intro FinishLargeFile_order) simp_all
  then have 4: "FinishLargeFile rpc ks' l1 = Returns (Inr f, tr)"
    using fin by simp
  show ?thesis
    using 1 2 3 4 by blast
qed

theorem UploadParts_Finish_size_witness:
  "Size \<lparr>Name = ''big'', Size = 18, Status = ''upload'', Timestamp = (1700000000, 123000000),
         Info = None, ID = ''f1'', b2 = example_b2\<rparr> = word_of_int (5 + 6 + 7) \<and>
   (\<exists>outs'. UploadParts \<lparr>lf_ID = ''f1'', lf_b2 = example_b2, lf_size = 0, lf_hashes = Map.empty\<rparr>
        [example_call 3 ''c'' 7, example_call 1 ''a'' 5, example_call 2 ''b'' 6]
      = Returns (outs',
          \<lparr>lf_ID = ''f1'', lf_b2 = example_b2, lf_size = 18,
           lf_hashes = [1 \<mapsto> ''a'', 2 \<mapsto> ''b'', 3 \<mapsto> ''c'']\<rparr>)) \<and>
   FinishLargeFile example_rpc [3, 1, 2]
      \<lparr>lf_ID = ''f1'', lf_b2 = example_b2, lf_size = 18,
       lf_hashes = [1 \<mapsto> ''a'', 2 \<mapsto> ''b'', 3 \<mapsto> ''c'']\<rparr>
    = Returns (Inr \<lparr>Name = ''big'', Size = 18, Status = ''upload'',
                    Timestamp = (1700000000, 123000000), Info = None, ID = ''f1'',
                    b2 = example_b2\<rparr>,
               [\<lparr>req_ID = ''f1'', req_Hashes = [''a'', ''b'', ''c'']\<rparr>])"
proof -
  let ?l0 = "\<lparr>lf_ID = ''f1'', lf_b2 = example_b2, lf_size = 0, lf_hashes = Map.empty\<rparr>"
  let ?l1 = "\<lparr>lf_ID = ''f1'', lf_b2 = example_b2, lf_size = 18,
              lf_hashes = [1 \<mapsto> ''a'', 2 \<mapsto> ''b'', 3 \<mapsto> ''c'']\<rparr>"
  let ?cs = "[example_call 1 ''a'' 5, example_call 2 ''b'' 6, example_call 3 ''c'' 7]"
  let ?cs' = "[example_call 3 ''c'' 7, example_call 1 ''a'' 5, example_call 2 ''b'' 6]"
  let ?f = "\<lparr>Name = ''big'', Size = 18, Status = ''upload'', Timestamp = (1700000000, 123000000),
             Info = None, ID = ''f1'', b2 = example_b2\<rparr>"
  have start: "StartLargeFile (Inr ''f1'') example_b2 = Inr ?l0"
    by (simp add: StartLargeFile_def)
  have up: "UploadParts ?l0 ?cs = Returns ([(5, None), (6, None), (7, None)], ?l1)"
    by (simp add: example_call_def UploadPart_def makeRequest_upload_def upload_body_def store_part_def)
  have ok: "\<forall>out\<in>set [(5::int, None::error option), (6, None), (7, None)]. snd out = None"
    by simp
  have idx: "distinct (map call_index ?cs)" "set (map call_index ?cs) = {1..int (length ?cs)}"
    by (auto simp: example_call_def)
  have ks: "distinct [1, 2, 3::int]" "set [1, 2, 3] = dom (lf_hashes ?l1)"
    by auto
  have ks': "distinct [3, 1, 2::int]" "set [3, 1, 2] = dom (lf_hashes ?l1)"
    by auto
  have fin: "FinishLargeFile example_rpc [1, 2, 3] ?l1
      = Returns (Inr ?f, [\<lparr>req_ID = ''f1'', req_Hashes = [''a'', ''b'', ''c'']\<rparr>])"
    by (simp add: FinishLargeFile_def example_rpc_def millitime_def go_div_def go_mod_def)
  have perm: "mset ?cs' = mset ?cs"
    by simp
  have sz: "Size ?f = word_of_int (5 + 6 + 7)"
    by simp
  show ?thesis
    using UploadParts_Finish_size [OF start up ok idx ks fin perm ks'] sz by blast
qed

end
